theory Spec2Isabelle
  imports Complex_Main
begin


section \<open>Text primitives\<close>

text \<open>
  The program works on Python \<open>str\<close> values.  They are modelled as \<open>string\<close>, and the
  character tables below are those of Python on the ASCII range: \<open>str.isspace\<close> and the
  regular-expression class \<open>\s\<close> (code points 9-13, 28-32), \<open>str.isdigit\<close> and \<open>\d\<close>
  (the ten digits), \<open>\w\<close> (letters, digits, underscore), \<open>str.upper\<close>, \<open>str.lower\<close>
  and \<open>str.isupper\<close>.  Characters outside ASCII are left unchanged by the case
  functions and belong to no class, so every statement below is one about ASCII text.
\<close>

definition isspace :: "char \<Rightarrow> bool" where
  "isspace c = (let n = (of_char c :: nat) in (9 \<le> n \<and> n \<le> 13) \<or> (28 \<le> n \<and> n \<le> 32))"

definition isdigit :: "char \<Rightarrow> bool" where
  "isdigit c = (let n = (of_char c :: nat) in 48 \<le> n \<and> n \<le> 57)"

definition is_upper_letter :: "char \<Rightarrow> bool" where
  "is_upper_letter c = (let n = (of_char c :: nat) in 65 \<le> n \<and> n \<le> 90)"

definition is_lower_letter :: "char \<Rightarrow> bool" where
  "is_lower_letter c = (let n = (of_char c :: nat) in 97 \<le> n \<and> n \<le> 122)"

definition is_letter :: "char \<Rightarrow> bool" where
  "is_letter c = (is_upper_letter c \<or> is_lower_letter c)"

definition is_word_char :: "char \<Rightarrow> bool" where
  "is_word_char c = (is_letter c \<or> isdigit c \<or> c = CHR ''_'')"

definition upper_char :: "char \<Rightarrow> char" where
  "upper_char c = (if is_lower_letter c then char_of ((of_char c :: nat) - 32) else c)"

definition lower_char :: "char \<Rightarrow> char" where
  "lower_char c = (if is_upper_letter c then char_of ((of_char c :: nat) + 32) else c)"

definition upper :: "string \<Rightarrow> string" where
  "upper s = map upper_char s"

definition lower :: "string \<Rightarrow> string" where
  "lower s = map lower_char s"

text \<open>\<open>str.isupper\<close>: at least one cased character, and no lowercase one.\<close>

definition isupper :: "string \<Rightarrow> bool" where
  "isupper s = (list_ex is_upper_letter s \<and> \<not> list_ex is_lower_letter s)"

text \<open>\<open>str.strip()\<close> with no argument removes whitespace at both ends.\<close>

definition strip :: "string \<Rightarrow> string" where
  "strip s = rev (dropWhile isspace (rev (dropWhile isspace s)))"

text \<open>\<open>needle in hay\<close> on strings: \<open>needle\<close> occurs as a contiguous substring.\<close>

fun starts_with :: "string \<Rightarrow> string \<Rightarrow> bool" where
  "starts_with [] hay = True"
| "starts_with (c # cs) [] = False"
| "starts_with (c # cs) (d # ds) = (c = d \<and> starts_with cs ds)"

fun str_in :: "string \<Rightarrow> string \<Rightarrow> bool" where
  "str_in needle [] = starts_with needle []"
| "str_in needle (d # ds) = (starts_with needle (d # ds) \<or> str_in needle ds)"

text \<open>\<open>sep.join(parts)\<close>.\<close>

fun join :: "string \<Rightarrow> string list \<Rightarrow> string" where
  "join sep [] = []"
| "join sep [p] = p"
| "join sep (p # q # ps) = p @ sep @ join sep (q # ps)"

section \<open>Regular expressions with Python's backtracking order\<close>

text \<open>
  The patterns of the program are kept as syntax trees and run by a matcher that returns
  every way to match from a position, in the order in which Python's backtracking engine
  tries them (a greedy repetition tries one more round before it tries to stop; an
  alternation tries its left branch first).  The head of the list is the match that
  \<open>re\<close> reports.  A matcher state is the character before the position (for \<open>\b\<close>), the
  text from the position on, and the value of the group \<open>first\<close>.
\<close>

datatype cls =
    Letter        \<comment> \<open>\<open>[^\W\d_]\<close>\<close>
  | Space         \<comment> \<open>\<open>\s\<close>\<close>
  | Sep           \<comment> \<open>\<open>['\<dots>\-]\<close>: apostrophe or hyphen (the typographic apostrophe is not ASCII)\<close>
  | NotRParen     \<comment> \<open>\<open>[^)]\<close>\<close>
  | Lit char      \<comment> \<open>a literal character\<close>
  | LitI char     \<comment> \<open>a literal character under \<open>IGNORECASE\<close>\<close>

fun in_cls :: "cls \<Rightarrow> char \<Rightarrow> bool" where
  "in_cls Letter c = is_letter c"
| "in_cls Space c = isspace c"
| "in_cls Sep c = (c = CHR 0x27 \<or> c = CHR ''-'')"
| "in_cls NotRParen c = (c \<noteq> CHR '')'')"
| "in_cls (Lit d) c = (c = d)"
| "in_cls (LitI d) c = (lower_char c = lower_char d)"

datatype rx =
    Eps                 \<comment> \<open>the empty pattern\<close>
  | Cls cls             \<comment> \<open>one character of a class\<close>
  | Seq rx rx
  | Alt rx rx           \<comment> \<open>\<open>a|b\<close>\<close>
  | Opt rx              \<comment> \<open>\<open>a?\<close>, greedy\<close>
  | Star rx             \<comment> \<open>\<open>a*\<close>, greedy\<close>
  | Upto nat rx         \<comment> \<open>\<open>a{0,n}\<close>, greedy\<close>
  | Grp rx              \<comment> \<open>\<open>(?P<first>a)\<close>\<close>
  | WordB               \<comment> \<open>\<open>\b\<close>\<close>
  | NotAhead rx         \<comment> \<open>\<open>(?!a)\<close>\<close>
  | Eos                 \<comment> \<open>\<open>$\<close> without \<open>MULTILINE\<close>\<close>

type_synonym mstate = "char option \<times> string \<times> string option"

text \<open>At most \<open>n\<close> rounds of \<open>m\<close>, one more round first.\<close>

primrec rounds :: "(mstate \<Rightarrow> mstate list) \<Rightarrow> nat \<Rightarrow> mstate \<Rightarrow> mstate list" where
  "rounds m 0 st = [st]"
| "rounds m (Suc n) st = concat (map (rounds m n) (m st)) @ [st]"

definition word_before :: "char option \<Rightarrow> bool" where
  "word_before p = (case p of None \<Rightarrow> False | Some c \<Rightarrow> is_word_char c)"

definition word_after :: "string \<Rightarrow> bool" where
  "word_after s = (case s of [] \<Rightarrow> False | c # _ \<Rightarrow> is_word_char c)"

fun mt :: "rx \<Rightarrow> mstate \<Rightarrow> mstate list" where
  "mt Eps st = [st]"
| "mt (Cls C) (p, s, g) =
     (case s of [] \<Rightarrow> [] | c # cs \<Rightarrow> if in_cls C c then [(Some c, cs, g)] else [])"
| "mt (Seq a b) st = concat (map (\<lambda>st'. mt b st') (mt a st))"
| "mt (Alt a b) st = mt a st @ mt b st"
| "mt (Opt a) st = mt a st @ [st]"
| "mt (Star a) (p, s, g) = rounds (\<lambda>st'. mt a st') (length s) (p, s, g)"
| "mt (Upto n a) st = rounds (\<lambda>st'. mt a st') n st"
| "mt (Grp a) (p, s, g) =
     map (\<lambda>(p', s', g'). (p', s', Some (take (length s - length s') s))) (mt a (p, s, g))"
| "mt WordB (p, s, g) = (if word_before p \<noteq> word_after s then [(p, s, g)] else [])"
| "mt (NotAhead a) st = (if mt a st = [] then [st] else [])"
| "mt Eos (p, s, g) = (if s = [] \<or> s = [CHR 0x0A] then [(p, s, g)] else [])"

definition Plus :: "rx \<Rightarrow> rx" where
  "Plus a = Seq a (Star a)"

text \<open>A literal string, and one under \<open>(?i:...)\<close>.\<close>

definition literal :: "string \<Rightarrow> rx" where
  "literal s = foldr (\<lambda>c r. Seq (Cls (Lit c)) r) s Eps"

definition literal_i :: "string \<Rightarrow> rx" where
  "literal_i s = foldr (\<lambda>c r. Seq (Cls (LitI c)) r) s Eps"

text \<open>
  \<open>pattern.finditer(text)\<close>: the pattern is tried at every position from left to right;
  a match is reported as (start, end, group \<open>first\<close>) and the scan goes on at its end
  (\<open>skip\<close> counts the characters still inside the last match).  After an empty match the
  scan moves one character on; no pattern of this program matches the empty string.
\<close>

type_synonym rmatch = "nat \<times> nat \<times> string option"

fun scan :: "rx \<Rightarrow> nat \<Rightarrow> nat \<Rightarrow> char option \<Rightarrow> string \<Rightarrow> rmatch list" where
  "scan r skip pos p [] =
     (if skip = 0 then
        (case mt r (p, [], None) of [] \<Rightarrow> [] | (p', s', g) # _ \<Rightarrow> [(pos, pos, g)])
      else [])"
| "scan r skip pos p (c # cs) =
     (if 0 < skip then scan r (skip - 1) (pos + 1) (Some c) cs
      else
        (case mt r (p, c # cs, None) of
           [] \<Rightarrow> scan r 0 (pos + 1) (Some c) cs
         | (p', s', g) # _ \<Rightarrow>
             (let n = length (c # cs) - length s'
              in (pos, pos + n, g) # scan r (n - 1) (pos + 1) (Some c) cs)))"

definition finditer :: "rx \<Rightarrow> string \<Rightarrow> rmatch list" where
  "finditer r text = scan r 0 0 None text"

text \<open>\<open>pattern.search(text)\<close> as a truth value.\<close>

definition re_search :: "rx \<Rightarrow> string \<Rightarrow> bool" where
  "re_search r text = (finditer r text \<noteq> [])"

text \<open>\<open>re.sub(pattern, "", text)\<close>: the characters inside a match are dropped.\<close>

definition in_span :: "rmatch list \<Rightarrow> nat \<Rightarrow> bool" where
  "in_span ms i = list_ex (\<lambda>(a, b, g). a \<le> i \<and> i < b) ms"

definition re_sub_empty :: "rx \<Rightarrow> string \<Rightarrow> string" where
  "re_sub_empty r text =
     map snd (filter (\<lambda>(i, c). \<not> in_span (finditer r text) i) (enumerate 0 text))"

section \<open>Token validator\<close>

datatype error = IndexError

text \<open>
  \<open>_clean_candidate\<close>.  A candidate made of periods only is not empty after \<open>strip\<close>, is
  empty after \<open>replace\<close>, and then \<open>candidate[0]\<close> raises.
\<close>

definition clean_candidate :: "string \<Rightarrow> error + string option" where
  "clean_candidate candidate0 =
     (let candidate1 = strip candidate0 in
      if candidate1 = [] then Inr None
      else
        (let candidate = filter (\<lambda>c. c \<noteq> CHR ''.'') candidate1 in
         if list_ex (\<lambda>c. isdigit c \<or> c = CHR ''_'') candidate then Inr None
         else if length candidate = 1 then Inr (Some (upper candidate))
         else
           (case candidate of
              [] \<Rightarrow> Inl IndexError
            | c # cs \<Rightarrow> Inr (Some (upper [c] @ cs)))))"

section \<open>Name matcher\<close>

definition STRUCTURED_HINTS :: "string list" where
  "STRUCTURED_HINTS =
     [''feedback'', ''instructor'', ''course head'', ''primary instructor'', ''lecturer'']"

definition INVALID_FIRST_TOKENS :: "string list" where
  "INVALID_FIRST_TOKENS =
     [''professor'', ''prof'', ''doctor'', ''dr'', ''mr'', ''mrs'', ''ms'', ''mx'',
      ''coach'', ''dean'', ''chair'', ''director'', ''instructor'']"

text \<open>\<open>_normalize_last_name\<close>: \<open>re.sub(r"\s*\([^)]*\)\s*$", "", last_name).strip()\<close>.\<close>

definition paren_pattern :: rx where
  "paren_pattern =
     Seq (Star (Cls Space))
       (Seq (Cls (Lit CHR ''(''))
         (Seq (Star (Cls NotRParen))
           (Seq (Cls (Lit CHR '')''))
             (Seq (Star (Cls Space)) Eos))))"

definition normalize_last_name :: "string \<Rightarrow> string" where
  "normalize_last_name last_name = strip (re_sub_empty paren_pattern last_name)"

text \<open>\<open>_token_pattern\<close>: \<open>L(?:L|['\<dots>\-]L)*\<close> with \<open>L\<close> the letter class.\<close>

definition token_pattern :: rx where
  "token_pattern =
     Seq (Cls Letter) (Star (Alt (Cls Letter) (Seq (Cls Sep) (Cls Letter))))"

text \<open>
  \<open>_build_name_pattern\<close>:
  \<open>\b(?P<first>TOKEN)(?:\.)?\s+(?:TOKEN(?:\.)?\s+){0,3}(?i:LAST)(?!L)\<close>, where \<open>LAST\<close> is
  \<open>re.escape(last_name.strip())\<close>, that is, the stripped last name taken literally.
\<close>

definition build_name_pattern :: "string \<Rightarrow> rx" where
  "build_name_pattern last_name =
     Seq WordB
       (Seq (Grp token_pattern)
         (Seq (Opt (Cls (Lit CHR ''.'')))
           (Seq (Plus (Cls Space))
             (Seq (Upto 3 (Seq token_pattern (Seq (Opt (Cls (Lit CHR ''.''))) (Plus (Cls Space)))))
               (Seq (literal_i (strip last_name))
                 (NotAhead (Cls Letter)))))))"

text \<open>
  \<open>_extract_from_pattern\<close>, as a loop over the matches of \<open>finditer\<close>.  A Python value is
  falsy when it is \<open>None\<close> or the empty string.
\<close>

fun extract_loop :: "bool \<Rightarrow> rmatch list \<Rightarrow> error + string option" where
  "extract_loop require_capitalized [] = Inr None"
| "extract_loop require_capitalized ((a, b, g) # ms) =
     (case g of
        None \<Rightarrow> extract_loop require_capitalized ms
      | Some candidate \<Rightarrow>
          if candidate = [] then extract_loop require_capitalized ms
          else
            (case clean_candidate candidate of
               Inl e \<Rightarrow> Inl e
             | Inr None \<Rightarrow> extract_loop require_capitalized ms
             | Inr (Some cleaned) \<Rightarrow>
                 if cleaned = [] then extract_loop require_capitalized ms
                 else if require_capitalized \<and> \<not> isupper (take 1 cleaned)
                   then extract_loop require_capitalized ms
                 else if lower cleaned \<in> set INVALID_FIRST_TOKENS
                   then extract_loop require_capitalized ms
                 else Inr (Some cleaned)))"

definition extract_from_pattern :: "rx \<Rightarrow> string \<Rightarrow> bool \<Rightarrow> error + string option" where
  "extract_from_pattern pattern text require_capitalized =
     extract_loop require_capitalized (finditer pattern text)"

text \<open>\<open>any(hint in text_lower for hint in self.STRUCTURED_HINTS)\<close>.\<close>

definition any_hint :: "string \<Rightarrow> bool" where
  "any_hint text_lower = list_ex (\<lambda>hint. str_in hint text_lower) STRUCTURED_HINTS"

text \<open>\<open>_find_name_in_text\<close>.\<close>

definition find_name_in_text :: "string \<Rightarrow> string \<Rightarrow> error + string option" where
  "find_name_in_text text last_name =
     (if text = [] \<or> last_name = [] then Inr None
      else
        (let text_lower = lower text;
             normalized_last = normalize_last_name last_name
         in if normalized_last = [] then Inr None
            else if \<not> str_in (lower normalized_last) text_lower then Inr None
            else
              (case extract_from_pattern (build_name_pattern normalized_last) text True of
                 Inl e \<Rightarrow> Inl e
               | Inr (Some first) \<Rightarrow> Inr (Some first)
               | Inr None \<Rightarrow>
                   if any_hint text_lower
                   then extract_from_pattern (build_name_pattern normalized_last) text False
                   else Inr None)))"

section \<open>Fetcher\<close>

text \<open>
  The remote service is an oracle: \<open>net k url\<close> is what the GET issued after \<open>k\<close>
  earlier GETs receives, a raised \<open>requests.RequestException\<close> or a response with its
  status code and body.  What a call does besides returning is recorded in a \<open>world\<close>:
  the number of GETs issued, the number of calls of \<open>_fetch\<close>, and the sequence of
  observable events (requests, calls of \<open>time.sleep\<close>, warning and error log records;
  debug records are left out).  Delays are real numbers of seconds.
\<close>

datatype outcome = RequestException | Response int string

datatype event =
    Get string
  | Sleep real
  | WarnRequestFailed
  | WarnHttpStatus int
  | ErrAuthenticationFailed
  | ErrLoginPage

record world =
  gets :: nat
  fetch_calls :: nat
  events :: "event list"

record resolver =
  cookie_header :: string
  delay :: real
  max_retries :: nat
  link_cache :: "string \<rightharpoonup> string option"

text \<open>\<open>__init__\<close>; \<open>cookie_header or ""\<close> turns an absent cookie into the empty string.\<close>

definition new_resolver :: "string option \<Rightarrow> real \<Rightarrow> int \<Rightarrow> resolver" where
  "new_resolver cookie d m =
     \<lparr> cookie_header = (case cookie of None \<Rightarrow> [] | Some c \<Rightarrow> c),
       delay = (if d \<ge> 0 then d else 0),
       max_retries = nat (max 1 m),
       link_cache = Map.empty \<rparr>"

definition emit :: "event list \<Rightarrow> world \<Rightarrow> world" where
  "emit es w = w\<lparr>events := events w @ es\<rparr>"

text \<open>\<open>_sleep_backoff\<close>: the events it causes.\<close>

definition sleep_backoff :: "real \<Rightarrow> nat \<Rightarrow> event list" where
  "sleep_backoff d attempt =
     (let wait = min (d * 2 ^ (attempt - 1)) 10
      in if wait > 0 then [Sleep wait] else [])"

text \<open>\<open>if self.delay: time.sleep(self.delay)\<close>.\<close>

definition sleep_delay :: "real \<Rightarrow> event list" where
  "sleep_delay d = (if d \<noteq> 0 then [Sleep d] else [])"

definition is_login_page :: "string \<Rightarrow> bool" where
  "is_login_page text = (str_in ''HarvardKey - Sign In'' text \<or> str_in ''login-form'' text)"

text \<open>The body of the \<open>for attempt in range(1, max_retries + 1)\<close> loop of \<open>_fetch\<close>.\<close>

fun fetch_loop ::
  "(nat \<Rightarrow> string \<Rightarrow> outcome) \<Rightarrow> resolver \<Rightarrow> string \<Rightarrow> nat list \<Rightarrow> world
     \<Rightarrow> string option \<times> world" where
  "fetch_loop net r url [] w = (None, w)"
| "fetch_loop net r url (attempt # rest) w =
     (case net (gets w) url of
        RequestException \<Rightarrow>
          fetch_loop net r url rest
            (emit ([Get url, WarnRequestFailed] @ sleep_backoff (delay r) attempt)
               (w\<lparr>gets := gets w + 1\<rparr>))
      | Response status text \<Rightarrow>
          (let w1 = emit ([Get url] @ sleep_delay (delay r)) (w\<lparr>gets := gets w + 1\<rparr>) in
           if status \<noteq> 200 then
             (if status = 401 \<or> status = 403
              then (None, emit [WarnHttpStatus status, ErrAuthenticationFailed] w1)
              else fetch_loop net r url rest
                     (emit ([WarnHttpStatus status] @ sleep_backoff (delay r) attempt) w1))
           else if is_login_page text then (None, emit [ErrLoginPage] w1)
           else (Some text, w1)))"

definition fetch ::
  "(nat \<Rightarrow> string \<Rightarrow> outcome) \<Rightarrow> resolver \<Rightarrow> string \<Rightarrow> world \<Rightarrow> string option \<times> world" where
  "fetch net r url w =
     fetch_loop net r url [1..<Suc (max_retries r)] (w\<lparr>fetch_calls := fetch_calls w + 1\<rparr>)"

section \<open>Candidate selector\<close>

text \<open>
  The parsed document is seen through the three queries the program makes of it:
  \<open>select_texts sel\<close> is \<open>node.get_text(" ", strip=True)\<close> for each node of
  \<open>soup.select(sel)\<close>, in document order; \<open>text_nodes\<close> lists every string node in
  document order, with \<open>parent.get_text(" ", strip=True)\<close> when it has a parent;
  \<open>stripped_strings\<close> is the sequence of that name.
\<close>

record soup =
  select_texts :: "string \<Rightarrow> string list"
  text_nodes :: "(string \<times> string option) list"
  stripped_strings :: "string list"

definition KEYWORD_PATTERNS :: "rx list" where
  "KEYWORD_PATTERNS =
     [literal_i ''Instructor'',
      literal_i ''Instructors'',
      Seq (literal_i ''Course'') (Seq (Star (Cls Space)) (literal_i ''Head'')),
      Seq (literal_i ''Primary'') (Seq (Plus (Cls Space)) (literal_i ''Instructor'')),
      literal_i ''Lecturer'']"

text \<open>\<open>_string_with_parent\<close>.\<close>

definition string_with_parent :: "string \<times> string option \<Rightarrow> string" where
  "string_with_parent node =
     (case snd node of Some parent_text \<Rightarrow> parent_text | None \<Rightarrow> strip (fst node))"

text \<open>\<open>soup.find_all(string=pattern)\<close>: the string nodes in which the pattern is found.\<close>

definition find_all_string :: "soup \<Rightarrow> rx \<Rightarrow> (string \<times> string option) list" where
  "find_all_string sp pattern = filter (\<lambda>node. re_search pattern (fst node)) (text_nodes sp)"

text \<open>
  The inner statement of both loops of \<open>_candidate_text_chunks\<close>, on the set \<open>seen\<close> and
  the chunks yielded so far.
\<close>

fun yield_new :: "string list \<Rightarrow> string set \<times> string list \<Rightarrow> string set \<times> string list" where
  "yield_new [] st = st"
| "yield_new (t # ts) (seen, out) =
     (if t \<noteq> [] \<and> t \<notin> seen then yield_new ts (insert t seen, out @ [t])
      else yield_new ts (seen, out))"

definition candidate_text_chunks :: "soup \<Rightarrow> string list" where
  "candidate_text_chunks sp =
     (let st1 = foldl (\<lambda>st selector. yield_new (select_texts sp selector) st)
                  ({}, []) [''title'', ''h1'', ''h2'', ''h3''];
          st2 = foldl (\<lambda>st pattern. yield_new (map string_with_parent (find_all_string sp pattern)) st)
                  st1 KEYWORD_PATTERNS
      in snd st2)"

definition first_n_characters :: "string \<Rightarrow> nat \<Rightarrow> string" where
  "first_n_characters text limit = (if length text \<le> limit then text else take limit text)"

text \<open>The \<open>for chunk in candidates\<close> loop of \<open>_extract_first_name\<close>.\<close>

fun first_in_chunks :: "string list \<Rightarrow> string \<Rightarrow> error + string option" where
  "first_in_chunks [] last_name = Inr None"
| "first_in_chunks (chunk # chunks) last_name =
     (case find_name_in_text chunk last_name of
        Inl e \<Rightarrow> Inl e
      | Inr (Some first) \<Rightarrow>
          if first \<noteq> [] then Inr (Some first) else first_in_chunks chunks last_name
      | Inr None \<Rightarrow> first_in_chunks chunks last_name)"

definition extract_first_name :: "(string \<Rightarrow> soup) \<Rightarrow> string \<Rightarrow> string \<Rightarrow> error + string option" where
  "extract_first_name parse html last_name =
     (if last_name = [] then Inr None
      else
        (let sp = parse html in
         case first_in_chunks (candidate_text_chunks sp) last_name of
           Inl e \<Rightarrow> Inl e
         | Inr (Some first) \<Rightarrow> Inr (Some first)
         | Inr None \<Rightarrow>
             find_name_in_text
               (first_n_characters (join '' '' (stripped_strings sp)) 6000) last_name))"

section \<open>Resolver\<close>

text \<open>
  \<open>resolve\<close>, with the HTML parser as a parameter.  It returns its result, the resolver
  with its cache, and the world.  An exception raised while matching would leave the
  cache as it was.
\<close>

definition cache_put :: "resolver \<Rightarrow> string \<Rightarrow> string option \<Rightarrow> resolver" where
  "cache_put r url v = r\<lparr>link_cache := (link_cache r)(url \<mapsto> v)\<rparr>"

definition resolve ::
  "(nat \<Rightarrow> string \<Rightarrow> outcome) \<Rightarrow> (string \<Rightarrow> soup) \<Rightarrow> resolver \<Rightarrow> string \<Rightarrow> string \<Rightarrow> world
     \<Rightarrow> (error + string option) \<times> resolver \<times> world" where
  "resolve net parse r url0 last_name w =
     (let url = strip url0 in
      if url = [] then (Inr None, r, w)
      else
        (case link_cache r url of
           Some v \<Rightarrow> (Inr v, r, w)
         | None \<Rightarrow>
             if cookie_header r = [] then (Inr None, cache_put r url None, w)
             else
               (case fetch net r url w of
                  (None, w') \<Rightarrow> (Inr None, cache_put r url None, w')
                | (Some html, w') \<Rightarrow>
                    if html = [] then (Inr None, cache_put r url None, w')
                    else
                      (case extract_first_name parse html last_name of
                         Inl e \<Rightarrow> (Inl e, r, w')
                       | Inr first \<Rightarrow> (Inr first, cache_put r url first, w')))))"

section \<open>Reference definitions and sample inputs\<close>

text \<open>
  An attempt is retried when it raised a transport error or received a status other than
  200, 401 and 403.
\<close>

definition retryable :: "outcome \<Rightarrow> bool" where
  "retryable oc =
     (case oc of RequestException \<Rightarrow> True
      | Response status text \<Rightarrow> status \<noteq> 200 \<and> status \<noteq> 401 \<and> status \<noteq> 403)"

text \<open>
  What a retried attempt number \<open>n\<close> is expected to show: the request, the fixed delay when
  a response came, the warning, and a sleep of \<open>min (d * 2 ^ (n - 1)) 10\<close> seconds (no
  call of \<open>time.sleep\<close> when that is zero).
\<close>

definition expected_failure_events :: "real \<Rightarrow> string \<Rightarrow> nat \<Rightarrow> outcome \<Rightarrow> event list" where
  "expected_failure_events d url n oc =
     (case oc of
        RequestException \<Rightarrow> [Get url, WarnRequestFailed]
      | Response status text \<Rightarrow> [Get url] @ (if d \<noteq> 0 then [Sleep d] else []) @ [WarnHttpStatus status])
     @ (if 0 < d then [Sleep (min (d * 2 ^ (n - 1)) 10)] else [])"

text \<open>The seconds slept in a sequence of events.\<close>

fun slept :: "event list \<Rightarrow> real" where
  "slept [] = 0"
| "slept (Sleep d # es) = d + slept es"
| "slept (e # es) = slept es"

text \<open>Sample inputs.\<close>

definition fresh_world :: world where
  "fresh_world = \<lparr>gets = 0, fetch_calls = 0, events = []\<rparr>"

definition demo_resolver :: resolver where
  "demo_resolver = new_resolver (Some ''SMSESSION=1'') (1 / 2) 2"

definition always_status :: "int \<Rightarrow> nat \<Rightarrow> string \<Rightarrow> outcome" where
  "always_status status k url = Response status []"

definition always_down :: "nat \<Rightarrow> string \<Rightarrow> outcome" where
  "always_down k url = RequestException"

definition login_after_one_failure :: "nat \<Rightarrow> string \<Rightarrow> outcome" where
  "login_after_one_failure k url =
     (if k = 0 then RequestException else Response 200 ''<form id=login-form>'')"

definition status_then_ok :: "nat \<Rightarrow> string \<Rightarrow> outcome" where
  "status_then_ok k url =
     (if k = 0 then Response 500 [] else Response 200 ''<html>report</html>'')"

definition down_then_status :: "nat \<Rightarrow> string \<Rightarrow> outcome" where
  "down_then_status k url = (if k = 0 then RequestException else Response 500 [])"

text \<open>Auxiliary notions for reasoning about the matcher.\<close>

text \<open>A pattern without a capture group.\<close>

fun no_grp :: "rx \<Rightarrow> bool" where
  "no_grp Eps = True"
| "no_grp (Cls C) = True"
| "no_grp (Seq a b) = (no_grp a \<and> no_grp b)"
| "no_grp (Alt a b) = (no_grp a \<and> no_grp b)"
| "no_grp (Opt a) = no_grp a"
| "no_grp (Star a) = no_grp a"
| "no_grp (Upto n a) = no_grp a"
| "no_grp (Grp a) = False"
| "no_grp WordB = True"
| "no_grp (NotAhead a) = True"
| "no_grp Eos = True"

text \<open>
  The strings that \<open>token_pattern\<close> can capture: a letter, then letters, apostrophes and
  hyphens.
\<close>

definition token_shaped :: "string \<Rightarrow> bool" where
  "token_shaped s =
     (case s of [] \<Rightarrow> False
      | c # u \<Rightarrow> is_letter c \<and> list_all (\<lambda>x. is_letter x \<or> x = CHR 0x27 \<or> x = CHR ''-'') u)"

text \<open>One round of the repetition inside \<open>token_pattern\<close>.\<close>

definition token_step :: rx where
  "token_step = Alt (Cls Letter) (Seq (Cls Sep) (Cls Letter))"

text \<open>The second state is reached from the first by consuming token characters only.\<close>

definition eats_token_chars :: "mstate \<Rightarrow> mstate \<Rightarrow> bool" where
  "eats_token_chars st st' =
     (\<exists>u. fst (snd st) = u @ fst (snd st')
        \<and> list_all (\<lambda>x. is_letter x \<or> x = CHR 0x27 \<or> x = CHR ''-'') u)"



definition maria_chunk :: string where
  "maria_chunk = ''Instructor: Maria Garcia-Lopez''"




section \<open>The fetcher\<close>

lemma sleep_backoff_nonneg:
  "0 \<le> d \<Longrightarrow> sleep_backoff d n = (if 0 < d then [Sleep (min (d * 2 ^ (n - 1)) 10)] else [])"
proof -
  have p: "(0::real) < 2 ^ (n - 1)" by simp
  have "0 < min (d * 2 ^ (n - 1)) 10 \<longleftrightarrow> 0 < d"
    using p by (simp add: zero_less_mult_iff)
  then show ?thesis by (simp add: sleep_backoff_def Let_def)
qed

lemma fetch_loop_step_retryable:
  assumes "retryable (net (gets w) url)" and "0 \<le> delay r"
  shows "fetch_loop net r url (n # rest) w =
           fetch_loop net r url rest
             (w\<lparr>gets := gets w + 1,
                events := events w @ expected_failure_events (delay r) url n (net (gets w) url)\<rparr>)"
  using assms
  by (cases "net (gets w) url")
     (simp_all add: retryable_def expected_failure_events_def emit_def sleep_delay_def
        sleep_backoff_nonneg Let_def)

lemma fetch_loop_retries:
  assumes "\<forall>i<k. retryable (net (gets w + i) url)" and "0 \<le> delay r"
  shows "fetch_loop net r url ([a..<a + k] @ rest) w =
           fetch_loop net r url rest
             (w\<lparr>gets := gets w + k,
                events := events w @
                  concat (map (\<lambda>i. expected_failure_events (delay r) url (a + i)
                                       (net (gets w + i) url)) [0..<k])\<rparr>)"
  using assms
proof (induction k arbitrary: a w)
  case 0
  then show ?case by simp
next
  case (Suc k)
  have r0: "retryable (net (gets w) url)" using Suc.prems(1) by force
  let ?w1 = "w\<lparr>gets := gets w + 1,
                events := events w @ expected_failure_events (delay r) url a (net (gets w) url)\<rparr>"
  have later: "\<forall>i<k. retryable (net (gets ?w1 + i) url)"
    using Suc.prems(1) by auto
  have split: "[a..<a + Suc k] = a # [Suc a..<Suc a + k]"
    by (simp add: upt_conv_Cons)
  have idx: "[0..<Suc k] = 0 # map Suc [0..<k]"
    by (simp add: upt_conv_Cons map_Suc_upt del: upt_Suc)
  show ?case
    unfolding split idx
    using fetch_loop_step_retryable [of net w url r a "[Suc a..<Suc a + k] @ rest"]
      Suc.IH [of ?w1 "Suc a"] r0 later Suc.prems(2)
    by (simp add: o_def)
qed

lemma fetch_after_retries:
  assumes "\<forall>i<k. retryable (net (gets w + i) url)" and "0 \<le> delay r" and "k \<le> max_retries r"
  shows "fetch net r url w =
           fetch_loop net r url [Suc k..<Suc (max_retries r)]
             (w\<lparr>fetch_calls := fetch_calls w + 1, gets := gets w + k,
                events := events w @
                  concat (map (\<lambda>i. expected_failure_events (delay r) url (Suc i)
                                       (net (gets w + i) url)) [0..<k])\<rparr>)"
proof -
  let ?w = "w\<lparr>fetch_calls := fetch_calls w + 1\<rparr>"
  have eq: "[1..<Suc (max_retries r)] = [1..<1 + k] @ [Suc k..<Suc (max_retries r)]"
    using assms(3) upt_add_eq_append [of 1 "Suc k" "max_retries r - k"]
    by (simp del: upt_Suc)
  have pre: "\<forall>i<k. retryable (net (gets ?w + i) url)"
    using assms(1) by simp
  have "fetch net r url w = fetch_loop net r url ([1..<1 + k] @ [Suc k..<Suc (max_retries r)]) ?w"
    unfolding fetch_def eq [symmetric] ..
  also have "\<dots> = fetch_loop net r url [Suc k..<Suc (max_retries r)]
             (?w\<lparr>gets := gets ?w + k,
                events := events ?w @
                  concat (map (\<lambda>i. expected_failure_events (delay r) url (1 + i)
                                       (net (gets ?w + i) url)) [0..<k])\<rparr>)"
    using pre assms(2)
    by (rule fetch_loop_retries [where k = k and w = ?w and net = net and url = url and r = r
          and a = 1 and rest = "[Suc k..<Suc (max_retries r)]"])
  finally show ?thesis by (simp del: upt_Suc)
qed


lemma starts_with_iff: "starts_with n h \<longleftrightarrow> (\<exists>b. h = n @ b)"
  by (induction n h rule: starts_with.induct) auto

lemma str_in_iff: "str_in n h \<longleftrightarrow> (\<exists>a b. h = a @ n @ b)"
proof (induction h)
  case Nil
  then show ?case by (auto simp: starts_with_iff)
next
  case (Cons d ds)
  show ?case
  proof
    assume "str_in n (d # ds)"
    then consider "starts_with n (d # ds)" | "str_in n ds" by auto
    then show "\<exists>a b. d # ds = a @ n @ b"
    proof cases
      case 1
      then obtain b where "d # ds = n @ b" by (auto simp: starts_with_iff)
      then have "d # ds = [] @ n @ b" by simp
      then show ?thesis by blast
    next
      case 2
      then obtain a b where "ds = a @ n @ b" using Cons.IH by blast
      then have "d # ds = (d # a) @ n @ b" by simp
      then show ?thesis by blast
    qed
  next
    assume "\<exists>a b. d # ds = a @ n @ b"
    then obtain a b where ab: "d # ds = a @ n @ b" by blast
    show "str_in n (d # ds)"
    proof (cases a)
      case Nil
      then have "starts_with n (d # ds)" using ab by (auto simp: starts_with_iff)
      then show ?thesis by simp
    next
      case (Cons x a')
      then have "ds = a' @ n @ b" using ab by simp
      then show ?thesis using Cons.IH by auto
    qed
  qed
qed

lemma fetch_loop_appends:
  "\<exists>tail. events (snd (fetch_loop net r url ns w)) = events w @ tail"
proof (induction ns arbitrary: w)
  case Nil
  then show ?case by simp
next
  case (Cons n ns)
  show ?case
  proof (cases "net (gets w) url")
    case RequestException
    obtain tail where "events (snd (fetch_loop net r url ns
        (emit ([Get url, WarnRequestFailed] @ sleep_backoff (delay r) n) (w\<lparr>gets := gets w + 1\<rparr>))))
      = events (emit ([Get url, WarnRequestFailed] @ sleep_backoff (delay r) n) (w\<lparr>gets := gets w + 1\<rparr>)) @ tail"
      using Cons.IH by blast
    then show ?thesis using RequestException by (simp add: emit_def)
  next
    case (Response status body)
    let ?w1 = "emit ([Get url] @ sleep_delay (delay r)) (w\<lparr>gets := gets w + 1\<rparr>)"
    obtain tail where "events (snd (fetch_loop net r url ns
        (emit ([WarnHttpStatus status] @ sleep_backoff (delay r) n) ?w1)))
      = events (emit ([WarnHttpStatus status] @ sleep_backoff (delay r) n) ?w1) @ tail"
      using Cons.IH by blast
    then show ?thesis using Response by (simp add: emit_def Let_def)
  qed
qed

text \<open>
  Claim C5, as stated, fails: with a delay of half a second, a first attempt answered by
  status 500 is followed by the fixed delay and then by the backoff, one second in all
  before the second attempt, where \<open>min (delay * 2 ^ (1 - 1)) 10\<close> is half a second.
\<close>

theorem retried_status_sleeps_delay_and_backoff:
  "fetch status_then_ok demo_resolver ''u'' fresh_world =
     (Some ''<html>report</html>'',
      \<lparr>gets = 2, fetch_calls = 1,
       events = [Get ''u'', Sleep (1 / 2), WarnHttpStatus 500, Sleep (1 / 2),
                 Get ''u'', Sleep (1 / 2)]\<rparr>)
   \<and> slept [Sleep (1 / 2), WarnHttpStatus 500, Sleep (1 / 2)] = 1
   \<and> min (delay demo_resolver * 2 ^ (1 - 1)) 10 = 1 / 2"
  by (simp add: fetch_def demo_resolver_def new_resolver_def fresh_world_def status_then_ok_def
      emit_def upt_rec sleep_delay_def sleep_backoff_def is_login_page_def)

text \<open>
  Claim C5, amended.  When the first \<open>k\<close> attempts of a fetch fail in a way that is
  retried, the events up to attempt \<open>k + 1\<close> are exactly these, attempt after attempt:
  the request; after a response, the fixed delay (when it is not zero); the warning; and
  a backoff sleep of \<open>min (delay * 2 ^ (n - 1)) 10\<close> seconds for attempt \<open>n\<close> (no call
  of \<open>time.sleep\<close> when that is zero).  So the fetcher sleeps
  \<open>min (delay * 2 ^ (n - 1)) 10\<close> seconds before the next attempt after a transport
  error, and \<open>delay + min (delay * 2 ^ (n - 1)) 10\<close> seconds after a retried status.
\<close>

theorem retried_attempts_sleep_schedule:
  assumes "0 \<le> delay r" and "k \<le> max_retries r"
    and "\<forall>i<k. retryable (net (gets w + i) url)"
  shows "fetch net r url w =
           fetch_loop net r url [Suc k..<Suc (max_retries r)]
             (w\<lparr>fetch_calls := fetch_calls w + 1, gets := gets w + k,
                events := events w @
                  concat (map (\<lambda>i. expected_failure_events (delay r) url (Suc i)
                                       (net (gets w + i) url)) [0..<k])\<rparr>)
       \<and> (\<forall>i<k. slept (expected_failure_events (delay r) url (Suc i) (net (gets w + i) url)) =
              (case net (gets w + i) url of
                 RequestException \<Rightarrow> min (delay r * 2 ^ (Suc i - 1)) 10
               | Response status body \<Rightarrow> delay r + min (delay r * 2 ^ (Suc i - 1)) 10))"
proof
  show "fetch net r url w =
           fetch_loop net r url [Suc k..<Suc (max_retries r)]
             (w\<lparr>fetch_calls := fetch_calls w + 1, gets := gets w + k,
                events := events w @
                  concat (map (\<lambda>i. expected_failure_events (delay r) url (Suc i)
                                       (net (gets w + i) url)) [0..<k])\<rparr>)"
    using assms(3,1,2) by (rule fetch_after_retries)
  have pos: "(0::real) < 2 ^ i" for i by simp
  have z: "min (delay r * 2 ^ i) 10 = 0" if "\<not> 0 < delay r" for i
  proof -
    have "delay r = 0" using that assms(1) by simp
    then show ?thesis by simp
  qed
  show "\<forall>i<k. slept (expected_failure_events (delay r) url (Suc i) (net (gets w + i) url)) =
              (case net (gets w + i) url of
                 RequestException \<Rightarrow> min (delay r * 2 ^ (Suc i - 1)) 10
               | Response status body \<Rightarrow> delay r + min (delay r * 2 ^ (Suc i - 1)) 10)"
  proof (intro allI impI)
    fix i
    show "slept (expected_failure_events (delay r) url (Suc i) (net (gets w + i) url)) =
              (case net (gets w + i) url of
                 RequestException \<Rightarrow> min (delay r * 2 ^ (Suc i - 1)) 10
               | Response status body \<Rightarrow> delay r + min (delay r * 2 ^ (Suc i - 1)) 10)"
      using z [of i]
      by (cases "net (gets w + i) url") (auto simp: expected_failure_events_def)
  qed
qed

theorem retried_attempts_sleep_schedule_witness:
  "fetch down_then_status demo_resolver ''u'' fresh_world =
     (None,
      \<lparr>gets = 2, fetch_calls = 1,
       events = [Get ''u'', WarnRequestFailed, Sleep (1 / 2),
                 Get ''u'', Sleep (1 / 2), WarnHttpStatus 500, Sleep 1]\<rparr>)"
  using retried_attempts_sleep_schedule [where r = demo_resolver and k = 2
      and net = down_then_status and w = fresh_world and url = "''u''", THEN conjunct1]
  by (simp add: demo_resolver_def new_resolver_def fresh_world_def down_then_status_def
      retryable_def expected_failure_events_def numeral_2_eq_2)

text \<open>
  Claim C4.  An attempt that receives status 200 with a body containing
  \<open>HarvardKey - Sign In\<close> or \<open>login-form\<close> ends the fetch: the result is \<open>None\<close>, the
  attempt is the last request made, and the last event is the error record about the
  login page.
\<close>

theorem login_page_is_terminal:
  assumes "\<forall>i<k. retryable (net (gets w + i) url)" and "0 \<le> delay r" and "k < max_retries r"
    and "net (gets w + k) url = Response 200 body"
    and "str_in ''HarvardKey - Sign In'' body \<or> str_in ''login-form'' body"
  shows "fst (fetch net r url w) = None
       \<and> gets (snd (fetch net r url w)) = gets w + k + 1
       \<and> (\<exists>pre. events (snd (fetch net r url w)) = events w @ pre @ [ErrLoginPage])"
proof -
  let ?w' = "w\<lparr>fetch_calls := fetch_calls w + 1, gets := gets w + k,
                events := events w @
                  concat (map (\<lambda>i. expected_failure_events (delay r) url (Suc i)
                                       (net (gets w + i) url)) [0..<k])\<rparr>"
  have f: "fetch net r url w = fetch_loop net r url [Suc k..<Suc (max_retries r)] ?w'"
    using assms(1,2,3) by (intro fetch_after_retries) auto
  have l: "[Suc k..<Suc (max_retries r)] = Suc k # [Suc (Suc k)..<Suc (max_retries r)]"
    using assms(3) by (simp add: upt_conv_Cons del: upt_Suc)
  have "fetch net r url w = (None, emit [ErrLoginPage]
          (emit ([Get url] @ sleep_delay (delay r)) (?w'\<lparr>gets := gets ?w' + 1\<rparr>)))"
    unfolding f l using assms(4,5) by (simp add: is_login_page_def Let_def)
  then show ?thesis by (simp add: emit_def)
qed

theorem login_page_is_terminal_witness:
  "fst (fetch login_after_one_failure demo_resolver ''u'' fresh_world) = None
     \<and> gets (snd (fetch login_after_one_failure demo_resolver ''u'' fresh_world)) = 2
     \<and> (\<exists>pre. events (snd (fetch login_after_one_failure demo_resolver ''u'' fresh_world))
            = pre @ [ErrLoginPage])"
  using login_page_is_terminal [where k = 1 and net = login_after_one_failure
      and w = fresh_world and url = "''u''" and r = demo_resolver
      and body = "''<form id=login-form>''"]
  by (simp add: demo_resolver_def new_resolver_def fresh_world_def login_after_one_failure_def
      retryable_def)


lemma expected_failure_events_no_error:
  "ErrAuthenticationFailed \<notin> set (expected_failure_events d url n oc)
     \<and> ErrLoginPage \<notin> set (expected_failure_events d url n oc)"
  by (cases oc) (simp_all add: expected_failure_events_def)

text \<open>
  Claim C3, as stated, fails: a fetch answered 403 at once and a fetch that uses up its
  attempts on status 500 return the same value, \<open>None\<close>; nothing in the result
  classifies the failure.
\<close>

theorem auth_failure_same_result_as_exhaustion:
  "fst (fetch (always_status 403) demo_resolver ''u'' fresh_world) = None
     \<and> fst (fetch (always_status 500) demo_resolver ''u'' fresh_world) = None"
  by (simp add: fetch_def demo_resolver_def new_resolver_def fresh_world_def always_status_def
      emit_def upt_rec)

text \<open>
  Claim C3, amended.  A fetch whose first attempt receives 401 or 403 makes no further
  attempt and returns \<open>None\<close> after an authentication error record; a fetch that uses up
  \<open>max_retries\<close> attempts on status 500 makes \<open>max_retries\<close> requests, writes no error
  record and returns \<open>None\<close> too.  The two differ in the log and in the number of
  requests, not in the value returned.
\<close>

theorem auth_failure_terminal_and_logged:
  assumes "net_a (gets w) url = Response status body" and "status = 401 \<or> status = 403"
    and "1 \<le> max_retries r" and "0 \<le> delay r"
    and "\<forall>i<max_retries r. \<exists>body. net_b (gets w + i) url = Response 500 body"
  shows "fetch net_a r url w =
           (None, w\<lparr>fetch_calls := fetch_calls w + 1, gets := gets w + 1,
                    events := events w @ [Get url] @ sleep_delay (delay r)
                                @ [WarnHttpStatus status, ErrAuthenticationFailed]\<rparr>)
       \<and> (\<exists>new. fetch net_b r url w =
              (None, w\<lparr>fetch_calls := fetch_calls w + 1, gets := gets w + max_retries r,
                       events := events w @ new\<rparr>)
            \<and> ErrAuthenticationFailed \<notin> set new \<and> ErrLoginPage \<notin> set new)
       \<and> fst (fetch net_a r url w) = fst (fetch net_b r url w)"
proof -
  have l: "[1..<Suc (max_retries r)] = 1 # [2..<Suc (max_retries r)]"
    using assms(3) by (simp add: upt_conv_Cons numeral_2_eq_2 del: upt_Suc)
  have a: "fetch net_a r url w =
        (None, w\<lparr>fetch_calls := fetch_calls w + 1, gets := gets w + 1,
                 events := events w @ [Get url] @ sleep_delay (delay r)
                             @ [WarnHttpStatus status, ErrAuthenticationFailed]\<rparr>)"
    unfolding fetch_def l using assms(1,2) by (auto simp: emit_def Let_def)
  let ?new = "concat (map (\<lambda>i. expected_failure_events (delay r) url (Suc i)
                                       (net_b (gets w + i) url)) [0..<max_retries r])"
  have "\<forall>i<max_retries r. retryable (net_b (gets w + i) url)"
    using assms(5) by (auto simp: retryable_def)
  then have "fetch net_b r url w =
      fetch_loop net_b r url [Suc (max_retries r)..<Suc (max_retries r)]
      (w\<lparr>fetch_calls := fetch_calls w + 1, gets := gets w + max_retries r,
         events := events w @ ?new\<rparr>)"
    using assms(4) by (intro fetch_after_retries) auto
  then have b: "fetch net_b r url w =
      (None, w\<lparr>fetch_calls := fetch_calls w + 1, gets := gets w + max_retries r,
         events := events w @ ?new\<rparr>)"
    by simp
  have "ErrAuthenticationFailed \<notin> set ?new \<and> ErrLoginPage \<notin> set ?new"
    using expected_failure_events_no_error by auto
  then have "\<exists>new. fetch net_b r url w =
        (None, w\<lparr>fetch_calls := fetch_calls w + 1, gets := gets w + max_retries r,
                 events := events w @ new\<rparr>)
        \<and> ErrAuthenticationFailed \<notin> set new \<and> ErrLoginPage \<notin> set new"
    using b by blast
  moreover have "fst (fetch net_a r url w) = fst (fetch net_b r url w)"
    using a b by simp
  ultimately show ?thesis using a by blast
qed

theorem auth_failure_terminal_and_logged_witness:
  "fetch (always_status 403) demo_resolver ''u'' fresh_world =
     (None, \<lparr>gets = 1, fetch_calls = 1,
             events = [Get ''u'', Sleep (1 / 2), WarnHttpStatus 403, ErrAuthenticationFailed]\<rparr>)
   \<and> (\<exists>new. fetch (always_status 500) demo_resolver ''u'' fresh_world =
         (None, \<lparr>gets = 2, fetch_calls = 1, events = new\<rparr>)
       \<and> ErrAuthenticationFailed \<notin> set new \<and> ErrLoginPage \<notin> set new)
   \<and> fst (fetch (always_status 403) demo_resolver ''u'' fresh_world)
       = fst (fetch (always_status 500) demo_resolver ''u'' fresh_world)"
  using auth_failure_terminal_and_logged [where net_a = "always_status 403"
      and net_b = "always_status 500" and r = demo_resolver
      and w = fresh_world and url = "''u''" and status = 403 and body = "[]"]
  by (auto simp: demo_resolver_def new_resolver_def fresh_world_def always_status_def
      sleep_delay_def numeral_2_eq_2)

text \<open>
  Claim C6, as stated, fails: with two attempts both answered by status 500, the second
  and final attempt fails and is still followed by the fixed delay of half a second
  (and after it by the backoff of one second).
\<close>

theorem delay_follows_failed_final_attempt:
  "fetch (always_status 500) demo_resolver ''u'' fresh_world =
     (None, \<lparr>gets = 2, fetch_calls = 1,
             events = [Get ''u'', Sleep (1 / 2), WarnHttpStatus 500, Sleep (1 / 2),
                       Get ''u'', Sleep (1 / 2), WarnHttpStatus 500, Sleep 1]\<rparr>)"
  by (simp add: fetch_def demo_resolver_def new_resolver_def fresh_world_def always_status_def
      emit_def upt_rec sleep_delay_def sleep_backoff_def)

text \<open>
  Claim C6, amended.  A non-zero fixed delay is slept once, right after the request, on
  every attempt that receives a response, whatever its status; it is not slept on an
  attempt that raises a transport error.  So it follows a final attempt that fails with
  an error status, and does not follow a final attempt that fails with a transport error.
\<close>

theorem delay_after_every_response:
  "delay r \<noteq> 0 \<longrightarrow>
     (net (gets w) url = Response status body \<longrightarrow>
        (\<exists>tail. events (snd (fetch_loop net r url (n # rest) w))
                  = events w @ [Get url, Sleep (delay r)] @ tail))
   \<and> (net (gets w) url = Response status body \<and> status \<noteq> 200 \<and> status \<noteq> 401 \<and> status \<noteq> 403 \<longrightarrow>
        fetch_loop net r url [n] w =
          (None, w\<lparr>gets := gets w + 1,
                   events := events w @ [Get url, Sleep (delay r), WarnHttpStatus status]
                               @ sleep_backoff (delay r) n\<rparr>))
   \<and> (net (gets w) url = RequestException \<longrightarrow>
        fetch_loop net r url [n] w =
          (None, w\<lparr>gets := gets w + 1,
                   events := events w @ [Get url, WarnRequestFailed]
                               @ sleep_backoff (delay r) n\<rparr>))"
proof (intro impI conjI)
  assume d: "delay r \<noteq> 0" and resp: "net (gets w) url = Response status body"
  let ?w1 = "emit ([Get url] @ sleep_delay (delay r)) (w\<lparr>gets := gets w + 1\<rparr>)"
  let ?w2 = "emit ([WarnHttpStatus status] @ sleep_backoff (delay r) n) ?w1"
  obtain tail where t: "events (snd (fetch_loop net r url rest ?w2)) = events ?w2 @ tail"
    using fetch_loop_appends by blast
  show "\<exists>tail. events (snd (fetch_loop net r url (n # rest) w))
                  = events w @ [Get url, Sleep (delay r)] @ tail"
    using resp d t by (simp add: emit_def sleep_delay_def Let_def)
next
  assume "delay r \<noteq> 0"
    and "net (gets w) url = Response status body \<and> status \<noteq> 200 \<and> status \<noteq> 401 \<and> status \<noteq> 403"
  then show "fetch_loop net r url [n] w =
          (None, w\<lparr>gets := gets w + 1,
                   events := events w @ [Get url, Sleep (delay r), WarnHttpStatus status]
                               @ sleep_backoff (delay r) n\<rparr>)"
    by (simp add: emit_def sleep_delay_def Let_def)
next
  assume "net (gets w) url = RequestException"
  then show "fetch_loop net r url [n] w =
          (None, w\<lparr>gets := gets w + 1,
                   events := events w @ [Get url, WarnRequestFailed]
                               @ sleep_backoff (delay r) n\<rparr>)"
    by (simp add: emit_def)
qed

theorem delay_after_every_response_witness:
  "(\<exists>tail. events (snd (fetch_loop (always_status 403) demo_resolver ''u'' [1, 2] fresh_world))
             = [Get ''u'', Sleep (1 / 2)] @ tail)
   \<and> fetch_loop (always_status 500) demo_resolver ''u'' [2] fresh_world =
       (None, \<lparr>gets = 1, fetch_calls = 0,
               events = [Get ''u'', Sleep (1 / 2), WarnHttpStatus 500, Sleep 1]\<rparr>)
   \<and> fetch_loop always_down demo_resolver ''u'' [2] fresh_world =
       (None, \<lparr>gets = 1, fetch_calls = 0,
               events = [Get ''u'', WarnRequestFailed, Sleep 1]\<rparr>)"
  using delay_after_every_response [where net = "always_status 403" and r = demo_resolver
      and w = fresh_world and url = "''u''" and status = 403 and body = "[]" and n = 1
      and rest = "[2]"]
    delay_after_every_response [where net = "always_status 500" and r = demo_resolver
      and w = fresh_world and url = "''u''" and status = 500 and body = "[]" and n = 2]
    delay_after_every_response [where net = always_down and r = demo_resolver
      and w = fresh_world and url = "''u''" and n = 2]
  by (simp add: demo_resolver_def new_resolver_def fresh_world_def always_status_def
      always_down_def sleep_backoff_def)

section \<open>The name matcher\<close>

lemma rounds_invariant:
  assumes step: "\<And>st st'. st' \<in> set (m st) \<Longrightarrow> R st st'"
    and refl: "\<And>st. R st st"
    and trans: "\<And>a b c. R a b \<Longrightarrow> R b c \<Longrightarrow> R a c"
  shows "st' \<in> set (rounds m n st) \<Longrightarrow> R st st'"
proof (induction n arbitrary: st)
  case 0
  then show ?case using refl by simp
next
  case (Suc n)
  from Suc.prems consider "st' = st" | st1 where "st1 \<in> set (m st)" "st' \<in> set (rounds m n st1)"
    by auto
  then show ?case
  proof cases
    case 1
    then show ?thesis using refl by simp
  next
    case 2
    then show ?thesis using step Suc.IH trans by blast
  qed
qed

lemma mt_Seq_iff:
  "st' \<in> set (mt (Seq a b) st) \<longleftrightarrow> (\<exists>st1 \<in> set (mt a st). st' \<in> set (mt b st1))"
  by auto

lemma mt_keeps_group:
  "no_grp r \<Longrightarrow> st' \<in> set (mt r st) \<Longrightarrow> snd (snd st') = snd (snd st)"
proof (induction r arbitrary: st st')
  case Eps
  then show ?case by simp
next
  case (Cls C)
  then show ?case by (cases st) (auto split: list.splits if_splits)
next
  case (Seq a b)
  from Seq.prems obtain st1 where "st1 \<in> set (mt a st)" "st' \<in> set (mt b st1)"
    unfolding mt_Seq_iff by auto
  then show ?case using Seq.IH Seq.prems(1) by (metis no_grp.simps(3))
next
  case (Alt a b)
  from Alt.prems have "st' \<in> set (mt a st) \<or> st' \<in> set (mt b st)" by simp
  then show ?case using Alt.IH Alt.prems(1) by (metis no_grp.simps(4))
next
  case (Opt a)
  from Opt.prems have "st' \<in> set (mt a st) \<or> st' = st" by auto
  then show ?case using Opt.IH Opt.prems(1) by (metis no_grp.simps(5))
next
  case (Star a)
  obtain p s g where st: "st = (p, s, g)" by (cases st) auto
  have "snd (snd st') = snd (snd (p, s, g))"
  proof (rule rounds_invariant [where m = "\<lambda>x. mt a x" and n = "length s"
        and R = "\<lambda>x y. snd (snd y) = snd (snd x)"])
    show "st' \<in> set (rounds (\<lambda>x. mt a x) (length s) (p, s, g))"
      using Star.prems st by simp
  qed (use Star in auto)
  then show ?case using st by simp
next
  case (Upto n a)
  show ?case
  proof (rule rounds_invariant [where m = "\<lambda>x. mt a x" and n = n
        and R = "\<lambda>x y. snd (snd y) = snd (snd x)"])
    show "st' \<in> set (rounds (\<lambda>x. mt a x) n st)"
      using Upto.prems by simp
  qed (use Upto in auto)
next
  case (Grp a)
  then show ?case by simp
next
  case WordB
  then show ?case by (cases st) (auto split: if_splits)
next
  case (NotAhead a)
  then show ?case by (auto split: if_splits)
next
  case Eos
  then show ?case by (cases st) (auto split: if_splits)
qed

lemma no_grp_literal_i: "no_grp (literal_i s)"
  by (induction s) (simp_all add: literal_i_def)

lemma token_step_eats: "st' \<in> set (mt token_step st) \<Longrightarrow> eats_token_chars st st'"
  by (cases st) (auto simp: token_step_def eats_token_chars_def split: list.splits if_splits)

lemma eats_refl: "eats_token_chars st st"
  by (simp add: eats_token_chars_def)

lemma eats_trans:
  "eats_token_chars a b \<Longrightarrow> eats_token_chars b c \<Longrightarrow> eats_token_chars a c"
  unfolding eats_token_chars_def
proof -
  assume "\<exists>u. fst (snd a) = u @ fst (snd b) \<and> list_all (\<lambda>x. is_letter x \<or> x = CHR 0x27 \<or> x = CHR ''-'') u"
    and "\<exists>u. fst (snd b) = u @ fst (snd c) \<and> list_all (\<lambda>x. is_letter x \<or> x = CHR 0x27 \<or> x = CHR ''-'') u"
  then obtain u v where "fst (snd a) = u @ fst (snd b)" "fst (snd b) = v @ fst (snd c)"
    "list_all (\<lambda>x. is_letter x \<or> x = CHR 0x27 \<or> x = CHR ''-'') u"
    "list_all (\<lambda>x. is_letter x \<or> x = CHR 0x27 \<or> x = CHR ''-'') v" by blast
  then have "fst (snd a) = (u @ v) @ fst (snd c) \<and> list_all (\<lambda>x. is_letter x \<or> x = CHR 0x27 \<or> x = CHR ''-'') (u @ v)"
    by simp
  then show "\<exists>u. fst (snd a) = u @ fst (snd c) \<and> list_all (\<lambda>x. is_letter x \<or> x = CHR 0x27 \<or> x = CHR ''-'') u"
    by blast
qed

lemma mt_token_pattern:
  "mt token_pattern (p, s, g) =
     (case s of [] \<Rightarrow> []
      | c # cs \<Rightarrow> if is_letter c then rounds (\<lambda>x. mt token_step x) (length cs) (Some c, cs, g)
                  else [])"
  by (simp add: token_pattern_def token_step_def split: list.splits)

lemma token_capture:
  assumes "(p', s', g') \<in> set (mt (Grp token_pattern) (p, s, g))"
  shows "\<exists>cand. g' = Some cand \<and> token_shaped cand"
proof -
  from assms obtain q where q: "(p', s', q) \<in> set (mt token_pattern (p, s, g))"
    and g': "g' = Some (take (length s - length s') s)"
    by auto
  from q obtain c cs where s: "s = c # cs" and c: "is_letter c"
    and r: "(p', s', q) \<in> set (rounds (\<lambda>x. mt token_step x) (length cs) (Some c, cs, g))"
    by (auto simp: mt_token_pattern split: list.splits if_splits)
  have "eats_token_chars (Some c, cs, g) (p', s', q)"
    using r token_step_eats eats_refl eats_trans
    by (rule rounds_invariant [where m = "\<lambda>x. mt token_step x" and R = eats_token_chars, rotated 3])
  then obtain u where u: "cs = u @ s'" "list_all (\<lambda>x. is_letter x \<or> x = CHR 0x27 \<or> x = CHR ''-'') u"
    by (auto simp: eats_token_chars_def)
  have "take (length s - length s') s = c # u" using s u by simp
  then show ?thesis using g' c u by (simp add: token_shaped_def)
qed

lemma name_pattern_capture:
  assumes "(p', s', g') \<in> set (mt (build_name_pattern l) (p, s, g))"
  shows "\<exists>cand. g' = Some cand \<and> token_shaped cand"
proof -
  let ?rest = "Seq (Opt (Cls (Lit CHR ''.'')))
           (Seq (Plus (Cls Space))
             (Seq (Upto 3 (Seq token_pattern (Seq (Opt (Cls (Lit CHR ''.''))) (Plus (Cls Space)))))
               (Seq (literal_i (strip l))
                 (NotAhead (Cls Letter)))))"
  have ng: "no_grp ?rest"
    by (simp add: Plus_def token_pattern_def no_grp_literal_i)
  from assms obtain st0 st1 where "st0 \<in> set (mt WordB (p, s, g))"
    and 1: "st1 \<in> set (mt (Grp token_pattern) st0)" and 2: "(p', s', g') \<in> set (mt ?rest st1)"
    unfolding build_name_pattern_def mt_Seq_iff by blast
  obtain p1 s1 g1 where st1: "st1 = (p1, s1, g1)" by (cases st1) auto
  obtain p0 s0 g0 where st0: "st0 = (p0, s0, g0)" by (cases st0) auto
  have "\<exists>cand. g1 = Some cand \<and> token_shaped cand"
    using 1 token_capture unfolding st0 st1 by blast
  moreover have "g' = g1" using mt_keeps_group [OF ng 2] st1 by simp
  ultimately show ?thesis by simp
qed

lemma scan_groups:
  "(a, b, g) \<in> set (scan r k pos p s) \<Longrightarrow> \<exists>p0 s0 p' s'. (p', s', g) \<in> set (mt r (p0, s0, None))"
proof (induction r k pos p s rule: scan.induct)
  case (1 r skip pos p)
  show ?case
  proof (cases "mt r (p, [], None)")
    case Nil
    then show ?thesis using "1.prems" by (cases "skip = 0") simp_all
  next
    case (Cons st sts)
    obtain p' s' g' where st: "st = (p', s', g')" by (cases st) auto
    then have "g' = g" using "1.prems" Cons by (cases "skip = 0") simp_all
    then have "(p', s', g) \<in> set (mt r (p, [], None))" using Cons st by simp
    then show ?thesis by blast
  qed
next
  case (2 r skip pos p c cs)
  show ?case
  proof (cases "0 < skip")
    case True
    then show ?thesis using 2 by simp
  next
    case False
    show ?thesis
    proof (cases "mt r (p, c # cs, None)")
      case Nil
      then show ?thesis using 2 False by simp
    next
      case (Cons st sts)
      obtain p' s' g' where st: "st = (p', s', g')" by (cases st) auto
      from "2.prems" False Cons st
      consider "g = g'"
        | "(a, b, g) \<in> set (scan r (length (c # cs) - length s' - 1) (pos + 1) (Some c) cs)"
        by (auto simp: Let_def)
      then show ?thesis
      proof cases
        case 1
        have "(p', s', g) \<in> set (mt r (p, c # cs, None))" using Cons st 1 by simp
        then show ?thesis by blast
      next
        case 2
        have "(p', s', g') = st" using st by simp
        from "2.IH"(3) [OF False Cons this refl refl] 2
        show ?thesis by simp
      qed
    qed
  qed
qed

lemma letter_facts:
  "is_letter c \<Longrightarrow> \<not> isspace c \<and> c \<noteq> CHR ''.'' \<and> \<not> isdigit c \<and> c \<noteq> CHR ''_''"
  by (auto simp: is_letter_def is_upper_letter_def is_lower_letter_def isspace_def isdigit_def Let_def)

lemma sep_facts:
  "c = CHR 0x27 \<or> c = CHR ''-'' \<Longrightarrow>
     \<not> isspace c \<and> c \<noteq> CHR ''.'' \<and> \<not> isdigit c \<and> c \<noteq> CHR ''_'' \<and> \<not> is_letter c"
  by (auto simp: is_letter_def is_upper_letter_def is_lower_letter_def isspace_def isdigit_def Let_def)

lemma upper_char_letter: "is_letter c \<Longrightarrow> is_upper_letter (upper_char c)"
  by (auto simp: is_letter_def is_upper_letter_def is_lower_letter_def upper_char_def Let_def)

lemma dropWhile_none: "(\<forall>x\<in>set s. \<not> P x) \<Longrightarrow> dropWhile P s = s"
  by (cases s) auto

lemma strip_id: "(\<forall>x\<in>set s. \<not> isspace x) \<Longrightarrow> strip s = s"
  by (simp add: strip_def dropWhile_none)

lemma token_shaped_chars:
  assumes "token_shaped s" and "x \<in> set s"
  shows "\<not> isspace x \<and> x \<noteq> CHR ''.'' \<and> \<not> isdigit x \<and> x \<noteq> CHR ''_''"
proof -
  obtain c u where s: "s = c # u" and c: "is_letter c"
    and u: "\<forall>y\<in>set u. is_letter y \<or> y = CHR 0x27 \<or> y = CHR ''-''"
    using assms(1) unfolding token_shaped_def list_all_iff by (cases s) simp_all
  have "is_letter x \<or> (x = CHR 0x27 \<or> x = CHR ''-'')"
    using assms(2) s c u by auto
  then show ?thesis
  proof
    assume "is_letter x"
    then show ?thesis by (rule letter_facts)
  next
    assume "x = CHR 0x27 \<or> x = CHR ''-''"
    then show ?thesis using sep_facts by blast
  qed
qed

lemma clean_candidate_token:
  assumes "token_shaped (c # u)"
  shows "clean_candidate (c # u) = Inr (Some (upper_char c # u))"
proof -
  have ch: "\<forall>x\<in>set (c # u). \<not> isspace x \<and> x \<noteq> CHR ''.'' \<and> \<not> isdigit x \<and> x \<noteq> CHR ''_''"
    using token_shaped_chars [OF assms] by blast
  have s: "strip (c # u) = c # u" using ch by (intro strip_id) blast
  have f: "filter (\<lambda>x. x \<noteq> CHR ''.'') (c # u) = c # u"
    using ch by (intro filter_True) blast
  have d: "\<not> list_ex (\<lambda>x. isdigit x \<or> x = CHR ''_'') (c # u)"
    using ch unfolding list_ex_iff by blast
  have "clean_candidate (c # u) =
     (if length (c # u) = 1 then Inr (Some (upper (c # u))) else Inr (Some (upper [c] @ u)))"
    by (simp only: clean_candidate_def Let_def s f d if_False list.simps list.case)
  then show ?thesis by (cases u) (simp_all add: upper_def)
qed

lemma extract_loop_step_some:
  assumes "extract_loop cap ((a, b, g) # ms) = Inr (Some f)"
  shows "extract_loop cap ms = Inr (Some f)
     \<or> (\<exists>cand. g = Some cand \<and> clean_candidate cand = Inr (Some f) \<and> f \<noteq> []
           \<and> (cap \<longrightarrow> isupper (take 1 f)) \<and> lower f \<notin> set INVALID_FIRST_TOKENS)"
proof (cases g)
  case None
  then show ?thesis using assms by simp
next
  case (Some cand)
  note g = this
  show ?thesis
  proof (cases "clean_candidate cand")
    case (Inl x)
    then show ?thesis using assms g by (simp split: if_splits)
  next
    case (Inr v)
    show ?thesis
    proof (cases v)
      case None
      then show ?thesis using assms g Inr by (simp split: if_splits)
    next
      case (Some cleaned)
      then show ?thesis using assms g Inr by (simp split: if_splits)
    qed
  qed
qed

lemma extract_loop_step_error:
  assumes "extract_loop cap ((a, b, g) # ms) = Inl e"
  shows "extract_loop cap ms = Inl e \<or> (\<exists>cand. g = Some cand \<and> clean_candidate cand = Inl e)"
proof (cases g)
  case None
  then show ?thesis using assms by simp
next
  case (Some cand)
  note g = this
  show ?thesis
  proof (cases "clean_candidate cand")
    case (Inl x)
    then show ?thesis using assms g by (simp split: if_splits)
  next
    case (Inr v)
    show ?thesis
    proof (cases v)
      case None
      then show ?thesis using assms g Inr by (simp split: if_splits)
    next
      case (Some cleaned)
      then show ?thesis using assms g Inr by (simp split: if_splits)
    qed
  qed
qed

lemma extract_loop_some:
  "extract_loop cap ms = Inr (Some f) \<Longrightarrow>
     \<exists>a b cand. (a, b, Some cand) \<in> set ms \<and> clean_candidate cand = Inr (Some f) \<and> f \<noteq> []
        \<and> (cap \<longrightarrow> isupper (take 1 f)) \<and> lower f \<notin> set INVALID_FIRST_TOKENS"
proof (induction ms)
  case Nil
  then show ?case by simp
next
  case (Cons m ms)
  obtain a b g where m: "m = (a, b, g)" by (cases m) auto
  from Cons.prems m consider "extract_loop cap ms = Inr (Some f)"
    | cand where "g = Some cand" "clean_candidate cand = Inr (Some f)" "f \<noteq> []"
        "cap \<longrightarrow> isupper (take 1 f)" "lower f \<notin> set INVALID_FIRST_TOKENS"
    using extract_loop_step_some by blast
  then show ?case
  proof cases
    case 1
    then obtain a' b' cand where "(a', b', Some cand) \<in> set ms"
      "clean_candidate cand = Inr (Some f)" "f \<noteq> []"
      "cap \<longrightarrow> isupper (take 1 f)" "lower f \<notin> set INVALID_FIRST_TOKENS"
      using Cons.IH by blast
    moreover then have "(a', b', Some cand) \<in> set (m # ms)" by simp
    ultimately show ?thesis by blast
  next
    case 2
    then have "(a, b, Some cand) \<in> set (m # ms)" using m by simp
    then show ?thesis using 2 by blast
  qed
qed

lemma extract_loop_error:
  "extract_loop cap ms = Inl e \<Longrightarrow>
     \<exists>a b cand. (a, b, Some cand) \<in> set ms \<and> clean_candidate cand = Inl e"
proof (induction ms)
  case Nil
  then show ?case by simp
next
  case (Cons m ms)
  obtain a b g where m: "m = (a, b, g)" by (cases m) auto
  from Cons.prems m consider "extract_loop cap ms = Inl e"
    | cand where "g = Some cand" "clean_candidate cand = Inl e"
    using extract_loop_step_error by blast
  then show ?case
  proof cases
    case 1
    then obtain a' b' cand where "(a', b', Some cand) \<in> set ms" "clean_candidate cand = Inl e"
      using Cons.IH by blast
    moreover then have "(a', b', Some cand) \<in> set (m # ms)" by simp
    ultimately show ?thesis by blast
  next
    case 2
    then have "(a, b, Some cand) \<in> set (m # ms)" using m by simp
    then show ?thesis using 2 by blast
  qed
qed

lemma finditer_name_groups:
  assumes "(a, b, g) \<in> set (finditer (build_name_pattern l) chunk)"
  shows "\<exists>c u. g = Some (c # u) \<and> token_shaped (c # u)"
proof -
  obtain p0 s0 p' s' where "(p', s', g) \<in> set (mt (build_name_pattern l) (p0, s0, None))"
    using assms scan_groups unfolding finditer_def by blast
  then obtain cand where "g = Some cand" "token_shaped cand"
    using name_pattern_capture by blast
  then show ?thesis by (cases cand) (auto simp: token_shaped_def)
qed

lemma extract_from_pattern_no_error:
  "extract_from_pattern (build_name_pattern l) chunk cap \<noteq> Inl e"
proof
  assume "extract_from_pattern (build_name_pattern l) chunk cap = Inl e"
  then obtain a b cand where m: "(a, b, Some cand) \<in> set (finditer (build_name_pattern l) chunk)"
    and c: "clean_candidate cand = Inl e"
    unfolding extract_from_pattern_def using extract_loop_error by blast
  obtain x u where "cand = x # u" "token_shaped (x # u)"
    using finditer_name_groups [OF m] by auto
  then show False using c clean_candidate_token by simp
qed

lemma extract_from_pattern_some:
  assumes "extract_from_pattern (build_name_pattern l) chunk cap = Inr (Some f)"
  shows "\<exists>a b c u. (a, b, Some (c # u)) \<in> set (finditer (build_name_pattern l) chunk)
           \<and> token_shaped (c # u) \<and> f = upper_char c # u
           \<and> lower f \<notin> set INVALID_FIRST_TOKENS"
proof -
  obtain a b cand where m: "(a, b, Some cand) \<in> set (finditer (build_name_pattern l) chunk)"
    and c: "clean_candidate cand = Inr (Some f)" and i: "lower f \<notin> set INVALID_FIRST_TOKENS"
    using assms unfolding extract_from_pattern_def using extract_loop_some by blast
  obtain x u where xu: "cand = x # u" "token_shaped (x # u)"
    using finditer_name_groups [OF m] by auto
  then have "f = upper_char x # u" using c clean_candidate_token by simp
  then show ?thesis using m xu i by blast
qed

lemma find_name_outcomes:
  "find_name_in_text chunk last_name = Inr None
   \<or> (\<exists>cap. find_name_in_text chunk last_name =
         extract_from_pattern (build_name_pattern (normalize_last_name last_name)) chunk cap)"
proof (cases "extract_from_pattern (build_name_pattern (normalize_last_name last_name)) chunk True")
  case (Inl e)
  then show ?thesis using extract_from_pattern_no_error by blast
next
  case (Inr v)
  show ?thesis
  proof (cases v)
    case None
    then show ?thesis using Inr unfolding find_name_in_text_def Let_def by auto
  next
    case (Some first)
    then have "find_name_in_text chunk last_name = Inr None
      \<or> find_name_in_text chunk last_name =
         extract_from_pattern (build_name_pattern (normalize_last_name last_name)) chunk True"
      using Inr unfolding find_name_in_text_def Let_def by auto
    then show ?thesis by blast
  qed
qed

lemma find_name_in_text_no_error: "find_name_in_text chunk last_name \<noteq> Inl e"
  using find_name_outcomes [of chunk last_name] extract_from_pattern_no_error
  by (metis Inl_Inr_False)

lemma find_name_in_text_some:
  assumes "find_name_in_text chunk last_name = Inr (Some f)"
  shows "\<exists>a b c u. (a, b, Some (c # u))
              \<in> set (finditer (build_name_pattern (normalize_last_name last_name)) chunk)
           \<and> token_shaped (c # u) \<and> f = upper_char c # u
           \<and> lower f \<notin> set INVALID_FIRST_TOKENS"
proof -
  from assms find_name_outcomes [of chunk last_name] obtain cap where
    "extract_from_pattern (build_name_pattern (normalize_last_name last_name)) chunk cap
       = Inr (Some f)"
    by auto
  then show ?thesis by (rule extract_from_pattern_some)
qed

lemma is_upper_not_dot:
  "is_upper_letter c \<Longrightarrow> c \<noteq> CHR ''.'' \<and> \<not> isdigit c \<and> c \<noteq> CHR ''_''"
  using letter_facts [of c] by (simp add: is_letter_def)

lemma cleaned_token_facts:
  assumes "token_shaped (c # u)"
  shows "is_upper_letter (upper_char c)
       \<and> CHR ''.'' \<notin> set (upper_char c # u)
       \<and> (\<forall>x\<in>set (upper_char c # u). \<not> isdigit x \<and> x \<noteq> CHR ''_'')"
proof -
  have c: "is_letter c" using assms by (simp add: token_shaped_def)
  then have up: "is_upper_letter (upper_char c)" by (rule upper_char_letter)
  have u: "x \<noteq> CHR ''.'' \<and> \<not> isdigit x \<and> x \<noteq> CHR ''_''" if "x \<in> set u" for x
  proof -
    have "x \<in> set (c # u)" using that by simp
    then show ?thesis using token_shaped_chars [OF assms, of x] by blast
  qed
  have h: "upper_char c \<noteq> CHR ''.'' \<and> \<not> isdigit (upper_char c) \<and> upper_char c \<noteq> CHR ''_''"
    by (rule is_upper_not_dot [OF up])
  have "CHR ''.'' \<notin> set (upper_char c # u)"
  proof
    assume "CHR ''.'' \<in> set (upper_char c # u)"
    then have "CHR ''.'' = upper_char c \<or> CHR ''.'' \<in> set u" by simp
    then show False using h u [of "CHR ''.''"] by auto
  qed
  moreover have "\<forall>x\<in>set (upper_char c # u). \<not> isdigit x \<and> x \<noteq> CHR ''_''"
  proof
    fix x assume "x \<in> set (upper_char c # u)"
    then have "x = upper_char c \<or> x \<in> set u" by simp
    then show "\<not> isdigit x \<and> x \<noteq> CHR ''_''" using h u [of x] by auto
  qed
  ultimately show ?thesis using up by blast
qed

lemma maria_found:
  "find_name_in_text maria_chunk ''Garcia-Lopez'' = Inr (Some ''Maria'')"
  by code_simp

text \<open>
  Claim C9.  A first name returned by either pass of the matcher, and so by
  \<open>_find_name_in_text\<close>, is the captured token of a match with its first character
  uppercased and the rest unchanged; it starts with an uppercase letter and contains no
  period, no digit and no underscore.
\<close>

theorem matched_name_is_clean:
  "(extract_from_pattern (build_name_pattern l) chunk cap = Inr (Some f)
      \<or> find_name_in_text chunk last_name = Inr (Some f) \<and> l = normalize_last_name last_name)
   \<longrightarrow> (\<exists>a b c u. (a, b, Some (c # u)) \<in> set (finditer (build_name_pattern l) chunk)
          \<and> f = upper_char c # u
          \<and> is_upper_letter (upper_char c)
          \<and> CHR ''.'' \<notin> set f
          \<and> (\<forall>x\<in>set f. \<not> isdigit x \<and> x \<noteq> CHR ''_''))"
proof
  assume h: "extract_from_pattern (build_name_pattern l) chunk cap = Inr (Some f)
      \<or> find_name_in_text chunk last_name = Inr (Some f) \<and> l = normalize_last_name last_name"
  have "\<exists>a b c u. (a, b, Some (c # u)) \<in> set (finditer (build_name_pattern l) chunk)
           \<and> token_shaped (c # u) \<and> f = upper_char c # u
           \<and> lower f \<notin> set INVALID_FIRST_TOKENS"
    using h
  proof
    assume "extract_from_pattern (build_name_pattern l) chunk cap = Inr (Some f)"
    then show ?thesis by (rule extract_from_pattern_some)
  next
    assume a: "find_name_in_text chunk last_name = Inr (Some f) \<and> l = normalize_last_name last_name"
    then have l: "l = normalize_last_name last_name" ..
    from a have "find_name_in_text chunk last_name = Inr (Some f)" ..
    then show ?thesis unfolding l by (rule find_name_in_text_some)
  qed
  then obtain a b c u where m: "(a, b, Some (c # u)) \<in> set (finditer (build_name_pattern l) chunk)"
    and t: "token_shaped (c # u)" and f: "f = upper_char c # u"
    by (elim exE conjE)
  have k: "is_upper_letter (upper_char c)
       \<and> CHR ''.'' \<notin> set (upper_char c # u)
       \<and> (\<forall>x\<in>set (upper_char c # u). \<not> isdigit x \<and> x \<noteq> CHR ''_'')"
    by (rule cleaned_token_facts [OF t])
  have k1: "is_upper_letter (upper_char c)" using k by (rule conjunct1)
  have k2: "CHR ''.'' \<notin> set (upper_char c # u)" using k by (rule conjunct2 [THEN conjunct1])
  have k3: "\<forall>x\<in>set (upper_char c # u). \<not> isdigit x \<and> x \<noteq> CHR ''_''"
    using k by (rule conjunct2 [THEN conjunct2])
  have "(a, b, Some (c # u)) \<in> set (finditer (build_name_pattern l) chunk)
          \<and> f = upper_char c # u
          \<and> is_upper_letter (upper_char c)
          \<and> CHR ''.'' \<notin> set f
          \<and> (\<forall>x\<in>set f. \<not> isdigit x \<and> x \<noteq> CHR ''_'')"
    unfolding f by (intro conjI m refl k1 k2 k3)
  then show "\<exists>a b c u. (a, b, Some (c # u)) \<in> set (finditer (build_name_pattern l) chunk)
          \<and> f = upper_char c # u
          \<and> is_upper_letter (upper_char c)
          \<and> CHR ''.'' \<notin> set f
          \<and> (\<forall>x\<in>set f. \<not> isdigit x \<and> x \<noteq> CHR ''_'')"
    by (intro exI)
qed

theorem matched_name_is_clean_witness:
  "\<exists>a b c u. (a, b, Some (c # u))
        \<in> set (finditer (build_name_pattern (normalize_last_name ''Garcia-Lopez''))
                 maria_chunk)
     \<and> ''Maria'' = upper_char c # u
     \<and> is_upper_letter (upper_char c)
     \<and> CHR ''.'' \<notin> set ''Maria''
     \<and> (\<forall>x\<in>set ''Maria''. \<not> isdigit x \<and> x \<noteq> CHR ''_'')"
proof (rule matched_name_is_clean [where chunk = maria_chunk
      and last_name = "''Garcia-Lopez''" and f = "''Maria''"
      and l = "normalize_last_name ''Garcia-Lopez''" and cap = True, THEN mp])
  show "extract_from_pattern (build_name_pattern (normalize_last_name ''Garcia-Lopez''))
          maria_chunk True = Inr (Some ''Maria'')
      \<or> find_name_in_text maria_chunk ''Garcia-Lopez'' = Inr (Some ''Maria'')
        \<and> normalize_last_name ''Garcia-Lopez'' = normalize_last_name ''Garcia-Lopez''"
    using maria_found by blast
qed

section \<open>The two passes\<close>

text \<open>
  The capitalization test of the strict pass is applied to the cleaned candidate, whose
  first letter cleanup has already uppercased; on ASCII text it therefore never rejects
  a candidate, and the two passes return the same value.
\<close>

lemma extract_loop_cap_irrelevant:
  assumes "\<And>a b g. (a, b, g) \<in> set ms \<Longrightarrow> \<exists>c u. g = Some (c # u) \<and> token_shaped (c # u)"
  shows "extract_loop True ms = extract_loop False ms"
  using assms
proof (induction ms)
  case Nil
  then show ?case by simp
next
  case (Cons m ms)
  obtain a b g where m: "m = (a, b, g)" by (cases m) auto
  then obtain c u where g: "g = Some (c # u)" and t: "token_shaped (c # u)"
    using Cons.prems [of a b g] by auto
  have cl: "clean_candidate (c # u) = Inr (Some (upper_char c # u))"
    by (rule clean_candidate_token [OF t])
  have "is_letter c" using t by (simp add: token_shaped_def)
  then have "is_upper_letter (upper_char c)" by (rule upper_char_letter)
  then have up: "isupper (take 1 (upper_char c # u))"
    by (simp add: isupper_def is_upper_letter_def is_lower_letter_def Let_def)
  have ih: "extract_loop True ms = extract_loop False ms"
    using Cons.IH Cons.prems by (meson list.set_intros(2))
  show ?case unfolding m g using cl up ih by simp
qed

lemma strict_pass_equals_relaxed_pass:
  "extract_from_pattern (build_name_pattern l) chunk True
     = extract_from_pattern (build_name_pattern l) chunk False"
  unfolding extract_from_pattern_def
  by (rule extract_loop_cap_irrelevant) (rule finditer_name_groups)












section \<open>Normalization of the last name and the honorific blocklist\<close>

























end
